theory Spec2Isabelle
  imports Main
begin

section \<open>Conecta 4: the board, the input line and the turn loop of conecta4.js\<close>

text \<open>
  The program keeps three globals: \<open>board\<close> (6 arrays of 7 numbers, 0 for an empty cell,
  1 and 2 for the two players), \<open>currentPlayer\<close> and \<open>playing\<close>. They are the fields of
  the record \<open>game\<close>, together with the state of the readline interface \<open>rl\<close> and the
  lines written to the terminal. Row 0 is the top row, row 5 the bottom row.
\<close>

definition ROWS :: nat where
  "ROWS = 6"

definition COLS :: nat where
  "COLS = 7"

type_synonym grid = "nat list list"

text \<open>
  What reaches the terminal, as events: \<open>Shown b\<close> is one call of \<open>printBoard\<close> (the screen
  is cleared and the board \<open>b\<close> drawn), \<open>Prompt p\<close> is the question of \<open>rl.question\<close> for
  player \<open>p\<close>, \<open>InvalidColumn\<close> is the line "Columna invalida.", \<open>ColumnFull\<close> is
  "Columna llena, elige otra.", \<open>Wins p\<close> is "Jugador p gana!" and \<open>Draw\<close> is
  "Empate, tablero lleno!".
\<close>

datatype event = Shown grid | Prompt nat | InvalidColumn | ColumnFull | Wins nat | Draw

text \<open>
  The readline interface: \<open>Asking\<close> while a question waits for its line, \<open>Idle\<close> while the
  callback of a question runs, \<open>Closed\<close> after \<open>rl.close()\<close>.
\<close>

datatype rl_state = Idle | Asking | Closed

record game =
  board :: grid
  currentPlayer :: nat
  playing :: bool
  rl :: rl_state
  console :: "event list"

definition say :: "event \<Rightarrow> game \<Rightarrow> game" where
  "say e st = st\<lparr>console := console st @ [e]\<rparr>"

definition printBoard :: "game \<Rightarrow> game" where
  "printBoard st = say (Shown (board st)) st"

subsection \<open>The board queries\<close>

definition isBoardFull :: "grid \<Rightarrow> bool" where
  "isBoardFull b = list_all (\<lambda>row. list_all (\<lambda>cell. cell \<noteq> 0) row) b"

text \<open>
  The \<open>while\<close> loop of \<open>countDirection\<close>. Its coordinates leave the grid by one step
  (row -1 or 6, column -1 or 7), so they are integers. With \<open>dr = dc = 0\<close> on a matching
  cell the loop of the source never ends: the result is an option, \<open>None\<close> for a run that
  does not return.
\<close>

partial_function (option) countLoop ::
  "grid \<Rightarrow> int \<Rightarrow> int \<Rightarrow> int \<Rightarrow> int \<Rightarrow> nat \<Rightarrow> nat \<Rightarrow> nat option" where
  "countLoop b r c dr dc player cnt =
     (if 0 \<le> r \<and> r < int ROWS \<and> 0 \<le> c \<and> c < int COLS \<and> b ! nat r ! nat c = player
      then countLoop b (r + dr) (c + dc) dr dc player (cnt + 1)
      else Some cnt)"

declare countLoop.simps [code]

definition countDirection :: "grid \<Rightarrow> int \<Rightarrow> int \<Rightarrow> int \<Rightarrow> int \<Rightarrow> nat \<Rightarrow> nat option" where
  "countDirection b r c dr dc player = countLoop b (r + dr) (c + dc) dr dc player 0"

definition directions :: "(int \<times> int) list" where
  "directions = [(0, 1), (1, 0), (1, 1), (1, -1)]"

text \<open>The \<open>for ... of directions\<close> loop of \<open>checkWin\<close>, on the directions still to try.\<close>

fun checkWinLoop :: "grid \<Rightarrow> int \<Rightarrow> int \<Rightarrow> nat \<Rightarrow> (int \<times> int) list \<Rightarrow> bool option" where
  "checkWinLoop b row col player [] = Some False"
| "checkWinLoop b row col player ((dr, dc) # ds) =
     (case countDirection b row col dr dc player of
        None \<Rightarrow> None
      | Some fwd \<Rightarrow>
          (case countDirection b row col (- dr) (- dc) player of
             None \<Rightarrow> None
           | Some bwd \<Rightarrow>
               if 1 + fwd + bwd \<ge> 4 then Some True
               else checkWinLoop b row col player ds))"

definition checkWin :: "grid \<Rightarrow> int \<Rightarrow> int \<Rightarrow> nat \<Rightarrow> bool option" where
  "checkWin b row col player = checkWinLoop b row col player directions"

subsection \<open>The input line\<close>

text \<open>
  A line is a JavaScript string: a list of UTF-16 code units. \<open>parseInt\<close> with no radix
  skips leading white space, reads a sign, reads the prefix 0x or 0X (then the radix is
  16), and takes the longest run of digits of the radix; with no digit the result is
  \<open>NaN\<close>, here \<open>None\<close>. Whatever follows the digits is ignored. The value is an
  integer; the source holds it as a double, which rounds only above \<open>2 ^ 53\<close>, far above
  every column number.
\<close>

type_synonym jsstring = "nat list"

definition isWhiteSpace :: "nat \<Rightarrow> bool" where
  "isWhiteSpace u \<longleftrightarrow>
     u \<in> set [9, 10, 11, 12, 13, 32, 160, 5760, 8232, 8233, 8239, 8287, 12288, 65279]
     \<or> (8192 \<le> u \<and> u \<le> 8202)"

definition digitValue :: "nat \<Rightarrow> nat option" where
  "digitValue u =
     (if 48 \<le> u \<and> u \<le> 57 then Some (u - 48)
      else if 97 \<le> u \<and> u \<le> 122 then Some (u - 97 + 10)
      else if 65 \<le> u \<and> u \<le> 90 then Some (u - 65 + 10)
      else None)"

definition isDigit :: "nat \<Rightarrow> nat \<Rightarrow> bool" where
  "isDigit radix u = (case digitValue u of None \<Rightarrow> False | Some d \<Rightarrow> d < radix)"

definition digitsValue :: "nat \<Rightarrow> nat list \<Rightarrow> nat" where
  "digitsValue radix z = foldl (\<lambda>acc u. acc * radix + the (digitValue u)) 0 z"

definition parseDigits :: "int \<Rightarrow> nat \<Rightarrow> jsstring \<Rightarrow> int option" where
  "parseDigits sign radix s =
     (let z = takeWhile (isDigit radix) s
      in if z = [] then None else Some (sign * int (digitsValue radix z)))"

definition parsePrefix :: "int \<Rightarrow> jsstring \<Rightarrow> int option" where
  "parsePrefix sign s =
     (if take 2 s = [48, 120] \<or> take 2 s = [48, 88]
      then parseDigits sign 16 (drop 2 s)
      else parseDigits sign 10 s)"

definition parseInt :: "jsstring \<Rightarrow> int option" where
  "parseInt input =
     (let s = dropWhile isWhiteSpace input
      in if take 1 s = [45] then parsePrefix (- 1) (drop 1 s)
         else if take 1 s = [43] then parsePrefix 1 (drop 1 s)
         else parsePrefix 1 s)"

text \<open>The code units of an ASCII string, to write input lines as literals.\<close>

definition line :: "string \<Rightarrow> jsstring" where
  "line s = map of_char s"

subsection \<open>The turn loop\<close>

text \<open>
  \<open>askMove\<close> up to the call of \<open>rl.question\<close>: once the game is over it closes the
  interface, otherwise it asks the current player and returns; the callback runs when a
  line arrives.
\<close>

definition askMove :: "game \<Rightarrow> game" where
  "askMove st =
     (if \<not> playing st then st\<lparr>rl := Closed\<rparr>
      else (say (Prompt (currentPlayer st)) st)\<lparr>rl := Asking\<rparr>)"

text \<open>
  The scan \<open>for (let r = ROWS - 1; r >= 0; r--)\<close> for the first row \<open>r\<close> with
  \<open>board[r][col] === 0\<close>; the argument \<open>n\<close> is \<open>r + 1\<close>, the number of rows still to
  look at. The body of the loop returns at that row, so it runs at most once: it is
  \<open>landed\<close> below.
\<close>

fun findRow :: "grid \<Rightarrow> nat \<Rightarrow> nat \<Rightarrow> nat option" where
  "findRow b col 0 = None"
| "findRow b col (Suc r) = (if b ! r ! col = 0 then Some r else findRow b col r)"

text \<open>
  The assignment \<open>board[r][col] = v\<close>. The program makes it at one place only, with a row
  below 6 that the scan found and a column below 7 that the callback checked, so on a board
  of 6 rows of 7 cells the indices are in range.
\<close>

definition setCell :: "grid \<Rightarrow> nat \<Rightarrow> nat \<Rightarrow> nat \<Rightarrow> grid" where
  "setCell b r col v = b[r := (b ! r)[col := v]]"

text \<open>
  The body of the scan at the row it found (lines 42 to 54): the piece is placed, the board
  printed, then \<open>checkWin\<close>, then \<open>isBoardFull\<close>, then the turn passes. \<open>None\<close> only if
  \<open>checkWin\<close> did not return.
\<close>

definition landed :: "game \<Rightarrow> nat \<Rightarrow> nat \<Rightarrow> game option" where
  "landed st r col =
     (let st1 = printBoard (st\<lparr>board := setCell (board st) r col (currentPlayer st)\<rparr>)
      in case checkWin (board st1) (int r) (int col) (currentPlayer st1) of
           None \<Rightarrow> None
         | Some True \<Rightarrow>
             Some (askMove ((say (Wins (currentPlayer st1)) st1)\<lparr>playing := False\<rparr>))
         | Some False \<Rightarrow>
             if isBoardFull (board st1)
             then Some (askMove ((say Draw st1)\<lparr>playing := False\<rparr>))
             else Some (askMove (st1\<lparr>currentPlayer :=
                                      (if currentPlayer st1 = 1 then 2 else 1)\<rparr>)))"

text \<open>Lines 40 to 58: the scan of column \<open>col\<close>, its body, and the message of a full column.\<close>

definition dropInColumn :: "game \<Rightarrow> nat \<Rightarrow> game option" where
  "dropInColumn st col =
     (case findRow (board st) col ROWS of
        Some r \<Rightarrow> landed st r col
      | None \<Rightarrow> Some (askMove (say ColumnFull st)))"

text \<open>The callback of \<open>rl.question\<close> (lines 35 to 58).\<close>

definition callback :: "game \<Rightarrow> jsstring \<Rightarrow> game option" where
  "callback st input =
     (case parseInt input of
        None \<Rightarrow> Some (askMove (say InvalidColumn st))
      | Some n \<Rightarrow>
          (let col = n - 1
           in if col < 0 \<or> col \<ge> int COLS then Some (askMove (say InvalidColumn st))
              else dropInColumn st (nat col)))"

text \<open>
  A line arrives: the callback of the waiting question runs on it. With no question
  waiting (the interface is closed) the line is not read.
\<close>

definition deliver :: "game \<Rightarrow> jsstring \<Rightarrow> game option" where
  "deliver st input =
     (if rl st = Asking then callback (st\<lparr>rl := Idle\<rparr>) input else Some st)"

fun run :: "game \<Rightarrow> jsstring list \<Rightarrow> game option" where
  "run st [] = Some st"
| "run st (input # inputs) =
     (case deliver st input of None \<Rightarrow> None | Some st' \<Rightarrow> run st' inputs)"

text \<open>Lines 5 to 7, and the two calls at the end of the file.\<close>

definition initial :: game where
  "initial = \<lparr>board = replicate ROWS (replicate COLS 0), currentPlayer = 1,
              playing = True, rl = Idle, console = []\<rparr>"

definition start :: game where
  "start = askMove (printBoard initial)"

subsection \<open>Notions the properties are stated with\<close>

text \<open>A board as the program keeps it: 6 rows of 7 cells.\<close>

definition wf_board :: "grid \<Rightarrow> bool" where
  "wf_board b \<longleftrightarrow> length b = ROWS \<and> list_all (\<lambda>row. length row = COLS) b"

text \<open>
  The guard of the \<open>while\<close> loop of \<open>countDirection\<close>: the position is on the grid and
  its cell holds \<open>player\<close>.
\<close>

definition inGrid :: "int \<Rightarrow> int \<Rightarrow> bool" where
  "inGrid r c \<longleftrightarrow> 0 \<le> r \<and> r < int ROWS \<and> 0 \<le> c \<and> c < int COLS"

definition holds :: "grid \<Rightarrow> nat \<Rightarrow> int \<Rightarrow> int \<Rightarrow> bool" where
  "holds b player r c \<longleftrightarrow> inGrid r c \<and> b ! nat r ! nat c = player"

text \<open>
  \<open>n\<close> is the number of consecutive cells holding \<open>player\<close> that follow \<open>(r, c)\<close> in the
  direction \<open>(dr, dc)\<close>: the cells at 1 to \<open>n\<close> steps hold it, and the next one is off
  the grid or holds something else.
\<close>

definition isRun :: "grid \<Rightarrow> nat \<Rightarrow> int \<Rightarrow> int \<Rightarrow> int \<Rightarrow> int \<Rightarrow> nat \<Rightarrow> bool" where
  "isRun b player r c dr dc n \<longleftrightarrow>
     (\<forall>k\<in>{1..n}. holds b player (r + int k * dr) (c + int k * dc))
     \<and> \<not> holds b player (r + int (Suc n) * dr) (c + int (Suc n) * dc)"

text \<open>
  Four contiguous cells of the line through \<open>(row, col)\<close> in the direction \<open>(dr, dc)\<close>
  hold \<open>player\<close>, and \<open>(row, col)\<close> is one of them (the one at position \<open>k\<close> of the four).
\<close>

definition fourInLine :: "grid \<Rightarrow> nat \<Rightarrow> int \<Rightarrow> int \<Rightarrow> int \<Rightarrow> int \<Rightarrow> bool" where
  "fourInLine b player row col dr dc \<longleftrightarrow>
     (\<exists>k<4. \<forall>i<4. holds b player (row + (int i - int k) * dr) (col + (int i - int k) * dc))"

text \<open>The steps the loop of \<open>countDirection\<close> can still take before it leaves the grid.\<close>

definition stepsLeft :: "int \<Rightarrow> int \<Rightarrow> int \<Rightarrow> int \<Rightarrow> nat" where
  "stepsLeft dr dc r c =
     (if 0 < dr then nat (int ROWS - r) else if dr < 0 then nat (r + 1)
      else if 0 < dc then nat (int COLS - c) else nat (c + 1))"

text \<open>No piece floats: the cell under a piece is never empty.\<close>

definition gravity :: "grid \<Rightarrow> bool" where
  "gravity b \<longleftrightarrow> (\<forall>c<COLS. \<forall>r<ROWS - 1. b ! r ! c \<noteq> 0 \<longrightarrow> b ! Suc r ! c \<noteq> 0)"

definition sound :: "game \<Rightarrow> bool" where
  "sound st \<longleftrightarrow> wf_board (board st) \<and> gravity (board st) \<and> currentPlayer st \<noteq> 0"

text \<open>Column \<open>col\<close> holds \<open>k\<close> pieces, at the bottom, and nothing above them.\<close>

definition filled :: "nat \<Rightarrow> nat \<Rightarrow> game \<Rightarrow> bool" where
  "filled col k st \<longleftrightarrow> wf_board (board st) \<and> currentPlayer st \<noteq> 0
      \<and> (\<forall>r<ROWS. board st ! r ! col = 0 \<longleftrightarrow> r < ROWS - k)"

text \<open>After \<open>askMove\<close> a question waits exactly while the game is on.\<close>

definition settled :: "game \<Rightarrow> bool" where
  "settled st \<longleftrightarrow> (if playing st then rl st = Asking else rl st = Closed)"

text \<open>Column \<open>c\<close> of a board, from the top row to the bottom row.\<close>

definition column :: "grid \<Rightarrow> nat \<Rightarrow> nat list" where
  "column b c = map (\<lambda>row. row ! c) b"

text \<open>How many times "Columna llena, elige otra." was written.\<close>

definition fullReports :: "game \<Rightarrow> nat" where
  "fullReports st = count_list (console st) ColumnFull"

text \<open>
  The state after \<open>n\<close> lines that all name column \<open>col\<close>, read from a state in which the
  column was empty and \<open>m\<close> full-column messages had been written: the column holds \<open>k\<close>
  pieces; while the game is on every line dropped a piece until the column was full and
  every later line was answered with the message; once the game is over no message was
  added.
\<close>

definition columnRun :: "nat \<Rightarrow> nat \<Rightarrow> nat \<Rightarrow> game \<Rightarrow> bool" where
  "columnRun col m n s \<longleftrightarrow> settled s \<and>
     (\<exists>k. filled col k s \<and>
        (if playing s then k = min n 6 \<and> fullReports s = m + (n - 6)
         else 1 \<le> k \<and> k \<le> min n 6 \<and> fullReports s = m))"

subsection \<open>Boards and states of example\<close>

text \<open>The empty board, a full board with no line of four, a board with a row of four and one
  with a row of three.\<close>

definition emptyBoard :: grid where
  "emptyBoard = [[0, 0, 0, 0, 0, 0, 0], [0, 0, 0, 0, 0, 0, 0], [0, 0, 0, 0, 0, 0, 0],
                 [0, 0, 0, 0, 0, 0, 0], [0, 0, 0, 0, 0, 0, 0], [0, 0, 0, 0, 0, 0, 0]]"

definition drawBoard :: grid where
  "drawBoard = [[1, 2, 1, 2, 1, 2, 1], [1, 2, 1, 2, 1, 2, 1], [2, 1, 2, 1, 2, 1, 2],
                [2, 1, 2, 1, 2, 1, 2], [2, 1, 2, 1, 2, 1, 2], [1, 2, 1, 2, 1, 2, 1]]"

definition rowBoard :: grid where
  "rowBoard = [[0, 0, 0, 0, 0, 0, 0], [0, 0, 0, 0, 0, 0, 0], [0, 0, 0, 0, 0, 0, 0],
               [0, 0, 0, 0, 0, 0, 0], [2, 2, 2, 0, 0, 0, 0], [1, 1, 1, 1, 0, 0, 0]]"

definition threeBoard :: grid where
  "threeBoard = [[0, 0, 0, 0, 0, 0, 0], [0, 0, 0, 0, 0, 0, 0], [0, 0, 0, 0, 0, 0, 0],
                 [0, 0, 0, 0, 0, 0, 0], [2, 2, 0, 0, 0, 0, 0], [1, 1, 1, 0, 0, 0, 0]]"

text \<open>
  Boards on which player 1 has just completed a column of four (at row 2, column 3), a
  diagonal of four (at row 2, column 0) and an anti-diagonal of four (at row 2, column 6).
\<close>

definition colBoard :: grid where
  "colBoard = [[0, 0, 0, 0, 0, 0, 0], [0, 0, 0, 0, 0, 0, 0], [0, 0, 0, 1, 0, 0, 0],
               [2, 0, 0, 1, 0, 0, 0], [2, 0, 0, 1, 0, 0, 0], [2, 0, 0, 1, 0, 0, 0]]"

definition diagBoard :: grid where
  "diagBoard = [[0, 0, 0, 0, 0, 0, 0], [0, 0, 0, 0, 0, 0, 0], [1, 0, 0, 0, 0, 0, 0],
                [2, 1, 0, 0, 0, 0, 0], [1, 2, 1, 0, 0, 0, 0], [2, 2, 2, 1, 0, 0, 1]]"

definition antiBoard :: grid where
  "antiBoard = [[0, 0, 0, 0, 0, 0, 0], [0, 0, 0, 0, 0, 0, 0], [0, 0, 0, 0, 0, 0, 1],
                [0, 0, 0, 0, 0, 1, 2], [0, 0, 0, 0, 1, 2, 1], [1, 0, 0, 1, 2, 2, 2]]"

text \<open>A game in progress whose third column is full.\<close>

definition fullColumnGame :: game where
  "fullColumnGame =
     \<lparr>board = [[0, 0, 2, 0, 0, 0, 0], [0, 0, 1, 0, 0, 0, 0], [0, 0, 2, 0, 0, 0, 0],
               [0, 0, 1, 0, 0, 0, 0], [0, 0, 2, 0, 0, 0, 0], [0, 0, 1, 0, 0, 0, 0]],
      currentPlayer = 1, playing = True, rl = Asking, console = []\<rparr>"

text \<open>A game in progress where player 1 completes a row of four by playing column 4.\<close>

definition nearWinBoard :: grid where
  "nearWinBoard = [[0, 0, 0, 0, 0, 0, 0], [0, 0, 0, 0, 0, 0, 0], [0, 0, 0, 0, 0, 0, 0],
                   [0, 0, 0, 0, 0, 0, 0], [2, 2, 2, 0, 0, 0, 0], [1, 1, 1, 0, 0, 0, 0]]"

definition nearWinGame :: game where
  "nearWinGame = \<lparr>board = nearWinBoard, currentPlayer = 1, playing = True, rl = Asking,
                   console = []\<rparr>"

section \<open>Lemmas\<close>

subsection \<open>The loop of countDirection returns, with the length of the run\<close>

lemma stepsLeft_less:
  assumes "dr \<noteq> 0 \<or> dc \<noteq> 0" and "inGrid r c"
  shows "stepsLeft dr dc (r + dr) (c + dc) < stepsLeft dr dc r c"
  using assms by (auto simp add: stepsLeft_def inGrid_def)

lemma countLoop_step:
  "holds b player r c \<Longrightarrow>
     countLoop b r c dr dc player cnt = countLoop b (r + dr) (c + dc) dr dc player (Suc cnt)"
  by (subst countLoop.simps) (simp add: holds_def inGrid_def)

lemma countLoop_stop:
  "\<not> holds b player r c \<Longrightarrow> countLoop b r c dr dc player cnt = Some cnt"
  by (subst countLoop.simps) (auto simp add: holds_def inGrid_def)

lemma countLoop_run:
  assumes "dr \<noteq> 0 \<or> dc \<noteq> 0"
  shows "\<exists>n. countLoop b r c dr dc player cnt = Some (cnt + n)
            \<and> (\<forall>k<n. holds b player (r + int k * dr) (c + int k * dc))
            \<and> \<not> holds b player (r + int n * dr) (c + int n * dc)"
proof (induction "stepsLeft dr dc r c" arbitrary: r c cnt rule: less_induct)
  case less
  show ?case
  proof (cases "holds b player r c")
    case False
    then have "countLoop b r c dr dc player cnt = Some (cnt + 0)"
      by (simp add: countLoop_stop)
    with False show ?thesis
      by (intro exI[of _ 0]) simp
  next
    case True
    then have "inGrid r c" by (simp add: holds_def)
    then have "stepsLeft dr dc (r + dr) (c + dc) < stepsLeft dr dc r c"
      using assms by (rule stepsLeft_less[rotated])
    from less[OF this, of "Suc cnt"] obtain n where
      n: "countLoop b (r + dr) (c + dc) dr dc player (Suc cnt) = Some (Suc cnt + n)"
         "\<forall>k<n. holds b player (r + dr + int k * dr) (c + dc + int k * dc)"
         "\<not> holds b player (r + dr + int n * dr) (c + dc + int n * dc)"
      by blast
    have shift: "r + dr + int k * dr = r + int (Suc k) * dr"
                "c + dc + int k * dc = c + int (Suc k) * dc" for k
      by (simp_all add: algebra_simps)
    have "countLoop b r c dr dc player cnt = Some (cnt + Suc n)"
      using True n(1) by (simp add: countLoop_step)
    moreover have "\<forall>k<Suc n. holds b player (r + int k * dr) (c + int k * dc)"
    proof (intro allI impI)
      fix k assume "k < Suc n"
      show "holds b player (r + int k * dr) (c + int k * dc)"
      proof (cases k)
        case 0
        then show ?thesis using True by simp
      next
        case (Suc j)
        then have "j < n" using \<open>k < Suc n\<close> by simp
        then show ?thesis using n(2) Suc shift by metis
      qed
    qed
    moreover have "\<not> holds b player (r + int (Suc n) * dr) (c + int (Suc n) * dc)"
      using n(3) shift by metis
    ultimately show ?thesis by blast
  qed
qed

lemma isRun_unique:
  assumes "isRun b player r c dr dc n" and "isRun b player r c dr dc m"
  shows "n = m"
proof (rule ccontr)
  assume "n \<noteq> m"
  then consider "n < m" | "m < n" by linarith
  then show False
  proof cases
    case 1
    then have "Suc n \<in> {1..m}" by simp
    then show False using assms by (simp only: isRun_def) blast
  next
    case 2
    then have "Suc m \<in> {1..n}" by simp
    then show False using assms by (simp only: isRun_def) blast
  qed
qed

lemma countDirection_run:
  assumes "dr \<noteq> 0 \<or> dc \<noteq> 0"
  shows "\<exists>n. countDirection b r c dr dc player = Some n \<and> isRun b player r c dr dc n"
proof -
  from countLoop_run[OF assms, of b "r + dr" "c + dc" player 0] obtain n where
    n: "countLoop b (r + dr) (c + dc) dr dc player 0 = Some n"
       "\<forall>k<n. holds b player (r + dr + int k * dr) (c + dc + int k * dc)"
       "\<not> holds b player (r + dr + int n * dr) (c + dc + int n * dc)"
    by auto
  have shift: "r + dr + int k * dr = r + int (Suc k) * dr"
              "c + dc + int k * dc = c + int (Suc k) * dc" for k
    by (simp_all add: algebra_simps)
  have "holds b player (r + int k * dr) (c + int k * dc)" if "k \<in> {1..n}" for k
  proof -
    from that obtain j where "k = Suc j" and "j < n"
      by (cases k) auto
    then show ?thesis using n(2) shift by metis
  qed
  moreover have "\<not> holds b player (r + int (Suc n) * dr) (c + int (Suc n) * dc)"
    using n(3) shift by metis
  ultimately have "isRun b player r c dr dc n"
    by (simp add: isRun_def)
  with n(1) show ?thesis
    by (auto simp add: countDirection_def)
qed

lemma run_window:
  assumes here: "holds b player row col"
    and fwd: "isRun b player row col dr dc f"
    and bwd: "isRun b player row col (- dr) (- dc) g"
  shows "4 \<le> 1 + f + g \<longleftrightarrow> fourInLine b player row col dr dc"
proof
  assume long: "4 \<le> 1 + f + g"
  define k where "k = min g 3"
  have "k < 4" by (simp add: k_def)
  moreover have "holds b player (row + (int i - int k) * dr) (col + (int i - int k) * dc)"
    if "i < 4" for i
  proof (cases "k \<le> i")
    case True
    define j where "j = i - k"
    have off: "int i - int k = int j" using True by (simp add: j_def)
    show ?thesis
    proof (cases "j = 0")
      case True
      then show ?thesis using here off by simp
    next
      case False
      have "j \<le> f" using long that by (auto simp add: j_def k_def min_def split: if_splits)
      then have "j \<in> {1..f}" using False by simp
      then show ?thesis using fwd off by (simp add: isRun_def)
    qed
  next
    case False
    define j where "j = k - i"
    have off: "int i - int k = - int j" using False by (simp add: j_def)
    have "j \<in> {1..g}" using False by (auto simp add: j_def k_def)
    then have "holds b player (row + int j * (- dr)) (col + int j * (- dc))"
      using bwd by (simp add: isRun_def)
    then show ?thesis using off by simp
  qed
  ultimately show "fourInLine b player row col dr dc"
    by (auto simp add: fourInLine_def)
next
  assume "fourInLine b player row col dr dc"
  then obtain k where k: "k < 4"
    and win: "\<And>i. i < 4 \<Longrightarrow> holds b player (row + (int i - int k) * dr) (col + (int i - int k) * dc)"
    by (auto simp add: fourInLine_def)
  have "3 - k \<le> f"
  proof (rule ccontr)
    assume "\<not> 3 - k \<le> f"
    then have "k + Suc f < 4" by simp
    from win[OF this] have "holds b player (row + int (Suc f) * dr) (col + int (Suc f) * dc)"
      by simp
    then show False using fwd by (simp add: isRun_def)
  qed
  moreover have "k \<le> g"
  proof (rule ccontr)
    assume "\<not> k \<le> g"
    then have less: "Suc g \<le> k" by simp
    then have "k - Suc g < 4" using k by simp
    have off: "int (k - Suc g) - int k = - int (Suc g)"
      using less by simp
    from win[OF \<open>k - Suc g < 4\<close>]
    have "holds b player (row + (- int (Suc g)) * dr) (col + (- int (Suc g)) * dc)"
      by (simp only: off)
    then have "holds b player (row + int (Suc g) * (- dr)) (col + int (Suc g) * (- dc))"
      by (simp only: mult_minus_left mult_minus_right)
    then show False using bwd by (simp add: isRun_def)
  qed
  ultimately show "4 \<le> 1 + f + g" by simp
qed

subsection \<open>checkWin\<close>

lemma checkWinLoop_runs:
  assumes "\<forall>(dr, dc)\<in>set ds. dr \<noteq> 0 \<or> dc \<noteq> 0"
  shows "checkWinLoop b row col player ds =
           Some (\<exists>(dr, dc)\<in>set ds. \<exists>f g. isRun b player row col dr dc f
                    \<and> isRun b player row col (- dr) (- dc) g \<and> 4 \<le> 1 + f + g)"
  using assms
proof (induction ds)
  case Nil
  then show ?case by simp
next
  case (Cons d ds)
  obtain dr dc where d: "d = (dr, dc)" by (cases d)
  have nz: "dr \<noteq> 0 \<or> dc \<noteq> 0" and nz': "- dr \<noteq> 0 \<or> - dc \<noteq> 0"
    using Cons.prems d by auto
  from countDirection_run[OF nz, of b row col player] obtain f where
    f: "countDirection b row col dr dc player = Some f" "isRun b player row col dr dc f"
    by blast
  from countDirection_run[OF nz', of b row col player] obtain g where
    g: "countDirection b row col (- dr) (- dc) player = Some g"
       "isRun b player row col (- dr) (- dc) g"
    by blast
  have here: "(\<exists>f' g'. isRun b player row col dr dc f'
                 \<and> isRun b player row col (- dr) (- dc) g' \<and> 4 \<le> 1 + f' + g')
              \<longleftrightarrow> 4 \<le> 1 + f + g"
    using f(2) g(2) isRun_unique by blast
  have rest: "checkWinLoop b row col player ds =
           Some (\<exists>(dr, dc)\<in>set ds. \<exists>f g. isRun b player row col dr dc f
                    \<and> isRun b player row col (- dr) (- dc) g \<and> 4 \<le> 1 + f + g)"
    using Cons by simp
  show ?case
    unfolding d using f(1) g(1) here rest by simp
qed

lemma directions_nonzero: "\<forall>(dr, dc)\<in>set directions. dr \<noteq> 0 \<or> dc \<noteq> 0"
  by (simp add: directions_def)

lemma checkWin_returns: "\<exists>w. checkWin b row col player = Some w"
  by (simp add: checkWin_def checkWinLoop_runs[OF directions_nonzero])

lemma holds_setCell:
  assumes "r \<noteq> int row \<or> c \<noteq> int col"
  shows "holds (setCell b row col v) player r c = holds b player r c"
proof (cases "inGrid r c")
  case False
  then show ?thesis by (simp add: holds_def)
next
  case True
  then have nn: "0 \<le> r" "0 \<le> c" by (simp_all add: inGrid_def)
  have "setCell b row col v ! nat r ! nat c = b ! nat r ! nat c"
  proof (cases "nat r = row")
    case False
    then show ?thesis by (simp add: setCell_def)
  next
    case True
    then have "nat c \<noteq> col" using assms nn by auto
    then show ?thesis using True
      by (cases "row < length b") (simp_all add: setCell_def list_update_beyond)
  qed
  then show ?thesis by (simp add: holds_def)
qed

lemma isRun_setCell:
  assumes "dr \<noteq> 0 \<or> dc \<noteq> 0"
  shows "isRun (setCell b row col v) player (int row) (int col) dr dc n
           = isRun b player (int row) (int col) dr dc n"
proof -
  have "holds (setCell b row col v) player (int row + int k * dr) (int col + int k * dc)
          = holds b player (int row + int k * dr) (int col + int k * dc)" if "1 \<le> k" for k
    using that assms by (intro holds_setCell) auto
  from this this[of "Suc n"] have "\<forall>k\<in>{1..n}. holds (setCell b row col v) player (int row + int k * dr) (int col + int k * dc)
          = holds b player (int row + int k * dr) (int col + int k * dc)"
    and "holds (setCell b row col v) player (int row + int (Suc n) * dr) (int col + int (Suc n) * dc)
          = holds b player (int row + int (Suc n) * dr) (int col + int (Suc n) * dc)"
    by simp_all
  then show ?thesis
    unfolding isRun_def by blast
qed

lemma checkWin_setCell:
  "checkWin (setCell b row col v) (int row) (int col) player = checkWin b (int row) (int col) player"
proof -
  have "isRun (setCell b row col v) player (int row) (int col) dr dc n
          = isRun b player (int row) (int col) dr dc n
        \<and> isRun (setCell b row col v) player (int row) (int col) (- dr) (- dc) n
          = isRun b player (int row) (int col) (- dr) (- dc) n"
    if "(dr, dc) \<in> set directions" for dr dc n
    using that by (intro conjI isRun_setCell) (auto simp add: directions_def)
  then show ?thesis
    by (simp add: checkWin_def checkWinLoop_runs[OF directions_nonzero] split_def)
qed

lemma checkWin_line:
  assumes "holds b player row col"
  shows "checkWin b row col player
           = Some (\<exists>(dr, dc)\<in>set directions. fourInLine b player row col dr dc)"
proof -
  have "(\<exists>f g. isRun b player row col dr dc f \<and> isRun b player row col (- dr) (- dc) g
            \<and> 4 \<le> 1 + f + g) \<longleftrightarrow> fourInLine b player row col dr dc"
    if "(dr, dc) \<in> set directions" for dr dc
  proof -
    have nz: "dr \<noteq> 0 \<or> dc \<noteq> 0" and nz': "- dr \<noteq> 0 \<or> - dc \<noteq> 0"
      using that by (auto simp add: directions_def)
    from countDirection_run[OF nz, of b row col player] obtain f where
      f: "isRun b player row col dr dc f" by blast
    from countDirection_run[OF nz', of b row col player] obtain g where
      g: "isRun b player row col (- dr) (- dc) g" by blast
    have "(\<exists>f' g'. isRun b player row col dr dc f'
                 \<and> isRun b player row col (- dr) (- dc) g' \<and> 4 \<le> 1 + f' + g')
              \<longleftrightarrow> 4 \<le> 1 + f + g"
      using f g isRun_unique by blast
    then show ?thesis
      using run_window[OF assms f g] by simp
  qed
  then show ?thesis
    by (simp add: checkWin_def checkWinLoop_runs[OF directions_nonzero] split_def)
qed

subsection \<open>Boards and drops\<close>

lemma wf_board_nth: "wf_board b \<Longrightarrow> r < ROWS \<Longrightarrow> length (b ! r) = COLS"
  by (simp add: wf_board_def list_all_length)

lemma isBoardFull_cells:
  assumes "wf_board b"
  shows "isBoardFull b \<longleftrightarrow> (\<forall>r<ROWS. \<forall>c<COLS. b ! r ! c \<noteq> 0)"
  using assms by (auto simp add: isBoardFull_def wf_board_def list_all_length)

lemma askMove_playing:
  "playing st \<Longrightarrow> askMove st = st\<lparr>rl := Asking, console := console st @ [Prompt (currentPlayer st)]\<rparr>"
  by (simp add: askMove_def say_def)

lemma findRow_None: "findRow b col n = None \<longleftrightarrow> (\<forall>r<n. b ! r ! col \<noteq> 0)"
  by (induction n) (auto simp: less_Suc_eq)

lemma findRow_Some:
  "findRow b col n = Some r \<longleftrightarrow> r < n \<and> b ! r ! col = 0 \<and> (\<forall>q. r < q \<and> q < n \<longrightarrow> b ! q ! col \<noteq> 0)"
proof (induction n)
  case 0
  then show ?case by simp
next
  case (Suc n)
  show ?case
  proof (cases "b ! n ! col = 0")
    case True
    then show ?thesis
      by (auto simp: less_Suc_eq)
  next
    case False
    then show ?thesis using Suc
      by (auto simp: less_Suc_eq)
  qed
qed

lemma wf_board_setCell: "wf_board b \<Longrightarrow> wf_board (setCell b r col v)"
  by (cases "r < length b")
     (auto simp add: wf_board_def setCell_def list_all_length nth_list_update list_update_beyond)

lemma setCell_nth:
  assumes "wf_board b" and "r < ROWS" and "col < COLS" and "r' < ROWS" and "c' < COLS"
  shows "setCell b r col v ! r' ! c' = (if r' = r \<and> c' = col then v else b ! r' ! c')"
  using assms by (auto simp add: wf_board_def setCell_def list_all_length nth_list_update)

lemma landed_returns:
  "\<exists>st'. landed st r col = Some st'
      \<and> board st' = setCell (board st) r col (currentPlayer st)
      \<and> (currentPlayer st \<noteq> 0 \<longrightarrow> currentPlayer st' \<noteq> 0)"
proof -
  obtain w where "checkWin (setCell (board st) r col (currentPlayer st)) (int r) (int col)
                    (currentPlayer st) = Some w"
    using checkWin_returns by blast
  then show ?thesis
    by (cases w) (simp_all add: landed_def printBoard_def say_def askMove_def Let_def)
qed

lemma gravity_setCell:
  assumes wf: "wf_board b" and g: "gravity b" and col: "col < COLS"
    and row: "findRow b col ROWS = Some r" and v: "v \<noteq> 0"
  shows "gravity (setCell b r col v)"
proof -
  from row have r: "r < ROWS" and below: "\<forall>q. r < q \<and> q < ROWS \<longrightarrow> b ! q ! col \<noteq> 0"
    by (simp_all add: findRow_Some)
  have "setCell b r col v ! Suc q ! c \<noteq> 0"
    if c: "c < COLS" and q: "q < ROWS - 1" and nz: "setCell b r col v ! q ! c \<noteq> 0" for c q
  proof -
    have q': "q < ROWS" "Suc q < ROWS" using q by simp_all
    have old: "setCell b r col v ! q ! c = (if q = r \<and> c = col then v else b ! q ! c)"
      and new: "setCell b r col v ! Suc q ! c = (if Suc q = r \<and> c = col then v else b ! Suc q ! c)"
      using wf r col c q' by (simp_all add: setCell_nth)
    show ?thesis
    proof (cases "q = r \<and> c = col")
      case True
      then show ?thesis using new below q' by simp
    next
      case False
      then have "b ! q ! c \<noteq> 0" using nz old by auto
      then have "b ! Suc q ! c \<noteq> 0" using g c q by (simp add: gravity_def)
      then show ?thesis using new v by simp
    qed
  qed
  then show ?thesis by (simp add: gravity_def)
qed

lemma dropInColumn_sound:
  assumes "sound st" and "col < COLS"
  shows "\<exists>st'. dropInColumn st col = Some st' \<and> sound st'"
proof (cases "findRow (board st) col ROWS")
  case None
  then show ?thesis using assms
    by (simp add: dropInColumn_def askMove_def say_def sound_def)
next
  case (Some r)
  from landed_returns[of st r col] obtain st' where
    st': "landed st r col = Some st'" "board st' = setCell (board st) r col (currentPlayer st)"
         "currentPlayer st' \<noteq> 0"
    using assms by (auto simp add: sound_def)
  have "sound st'"
    using assms Some st'(2,3) by (simp add: sound_def wf_board_setCell gravity_setCell)
  then show ?thesis using Some st'(1) by (simp add: dropInColumn_def)
qed

lemma sound_initial: "sound initial"
  by (simp add: sound_def initial_def wf_board_def gravity_def list_all_length)

lemma sound_start: "sound start"
  using sound_initial by (simp add: sound_def start_def askMove_def printBoard_def say_def)

lemma deliver_sound:
  assumes "sound st"
  shows "\<exists>st'. deliver st input = Some st' \<and> sound st'"
proof (cases "rl st = Asking")
  case False
  then show ?thesis using assms by (simp add: deliver_def)
next
  case True
  have idle: "sound (st\<lparr>rl := Idle\<rparr>)" using assms by (simp add: sound_def)
  have bad: "sound (askMove (say InvalidColumn (st\<lparr>rl := Idle\<rparr>)))"
    using assms by (simp add: sound_def askMove_def say_def)
  show ?thesis
  proof (cases "parseInt input")
    case None
    then show ?thesis using True bad by (simp add: deliver_def callback_def)
  next
    case (Some n)
    show ?thesis
    proof (cases "n - 1 < 0 \<or> int COLS \<le> n - 1")
      case True
      then show ?thesis using \<open>rl st = Asking\<close> Some bad
        by (auto simp add: deliver_def callback_def Let_def)
    next
      case False
      then have "nat (n - 1) < COLS" by auto
      from dropInColumn_sound[OF idle this] show ?thesis
        using \<open>rl st = Asking\<close> Some False by (auto simp add: deliver_def callback_def Let_def)
    qed
  qed
qed

lemma run_sound:
  assumes "sound st"
  shows "\<exists>st'. run st inputs = Some st' \<and> sound st'"
  using assms
proof (induction inputs arbitrary: st)
  case Nil
  then show ?case by simp
next
  case (Cons input inputs)
  from deliver_sound[OF Cons.prems, of input] obtain s where
    s: "deliver st input = Some s" "sound s" by auto
  from Cons.IH[OF s(2)] show ?case using s(1) by simp
qed

lemma checkWin_counts:
  "checkWin b row col player =
     Some (\<exists>(dr, dc)\<in>set directions. \<exists>f g. countDirection b row col dr dc player = Some f
              \<and> countDirection b row col (- dr) (- dc) player = Some g \<and> 4 \<le> 1 + f + g)"
proof -
  have "(\<exists>f g. isRun b player row col dr dc f \<and> isRun b player row col (- dr) (- dc) g
            \<and> 4 \<le> 1 + f + g)
        \<longleftrightarrow> (\<exists>f g. countDirection b row col dr dc player = Some f
              \<and> countDirection b row col (- dr) (- dc) player = Some g \<and> 4 \<le> 1 + f + g)"
    if "(dr, dc) \<in> set directions" for dr dc
  proof -
    have nz: "dr \<noteq> 0 \<or> dc \<noteq> 0" and nz': "- dr \<noteq> 0 \<or> - dc \<noteq> 0"
      using that by (auto simp add: directions_def)
    from countDirection_run[OF nz, of b row col player] obtain f where
      f: "countDirection b row col dr dc player = Some f" "isRun b player row col dr dc f"
      by blast
    from countDirection_run[OF nz', of b row col player] obtain g where
      g: "countDirection b row col (- dr) (- dc) player = Some g"
         "isRun b player row col (- dr) (- dc) g"
      by blast
    have "(\<exists>f' g'. isRun b player row col dr dc f'
                 \<and> isRun b player row col (- dr) (- dc) g' \<and> 4 \<le> 1 + f' + g')
              \<longleftrightarrow> 4 \<le> 1 + f + g"
      using f(2) g(2) isRun_unique by blast
    then show ?thesis using f(1) g(1) by simp
  qed
  then show ?thesis
    by (simp add: checkWin_def checkWinLoop_runs[OF directions_nonzero] split_def)
qed

lemma direction_counts:
  assumes "(dr, dc) \<in> set directions"
  shows "\<exists>f g. countDirection b row col dr dc player = Some f \<and> isRun b player row col dr dc f
           \<and> countDirection b row col (- dr) (- dc) player = Some g
           \<and> isRun b player row col (- dr) (- dc) g"
proof -
  have nz: "dr \<noteq> 0 \<or> dc \<noteq> 0" and nz': "- dr \<noteq> 0 \<or> - dc \<noteq> 0"
    using assms by (auto simp add: directions_def)
  from countDirection_run[OF nz, of b row col player]
    countDirection_run[OF nz', of b row col player]
  show ?thesis by blast
qed

lemma filled_findRow:
  assumes "filled col k st"
  shows "findRow (board st) col ROWS = (if k < ROWS then Some (ROWS - 1 - k) else None)"
proof (cases "k < ROWS")
  case True
  then have "findRow (board st) col ROWS = Some (ROWS - 1 - k)"
    using assms by (auto simp add: findRow_Some filled_def)
  then show ?thesis using True by simp
next
  case False
  then have "findRow (board st) col ROWS = None"
    using assms by (auto simp add: findRow_None filled_def)
  then show ?thesis using False by simp
qed

lemma filled_drop:
  assumes "filled col k st" and "col < COLS"
  shows "\<exists>st'. dropInColumn st col = Some st' \<and> filled col (min (Suc k) ROWS) st'"
proof (cases "k < ROWS")
  case False
  then have "findRow (board st) col ROWS = None" "min (Suc k) ROWS = ROWS"
    using filled_findRow[OF assms(1)] by simp_all
  then show ?thesis using assms(1) False
    by (simp add: dropInColumn_def askMove_def say_def filled_def)
next
  case True
  define r where "r = ROWS - 1 - k"
  have r: "findRow (board st) col ROWS = Some r" "r < ROWS"
    using filled_findRow[OF assms(1)] True by (simp_all add: r_def)
  from landed_returns[of st r col] obtain st' where
    st': "landed st r col = Some st'" "board st' = setCell (board st) r col (currentPlayer st)"
         "currentPlayer st' \<noteq> 0"
    using assms(1) by (auto simp add: filled_def)
  have wf: "wf_board (board st)" and cp: "currentPlayer st \<noteq> 0"
    and old: "\<forall>q<ROWS. board st ! q ! col = 0 \<longleftrightarrow> q < ROWS - k"
    using assms(1) by (simp_all add: filled_def)
  have "board st' ! q ! col = 0 \<longleftrightarrow> q < ROWS - Suc k" if "q < ROWS" for q
  proof -
    have "board st' ! q ! col = (if q = r then currentPlayer st else board st ! q ! col)"
      using st'(2) wf r(2) assms(2) that by (simp add: setCell_nth)
    then show ?thesis
      using old that cp True by (auto simp add: r_def)
  qed
  then have "filled col (Suc k) st'"
    using st' wf by (simp add: filled_def wf_board_setCell)
  moreover have "min (Suc k) ROWS = Suc k" using True by simp
  ultimately show ?thesis using r(1) st'(1) by (simp add: dropInColumn_def)
qed

lemma askMove_settled: "settled (askMove st)"
  by (simp add: settled_def askMove_def say_def)

lemma landed_settled: "landed st r col = Some st' \<Longrightarrow> settled st'"
  by (auto simp add: landed_def Let_def askMove_settled split: option.splits bool.splits if_splits)

lemma deliver_settled:
  assumes "settled st" and "deliver st input = Some st'"
  shows "settled st'"
proof (cases "rl st = Asking")
  case False
  then show ?thesis using assms by (simp add: deliver_def)
next
  case True
  then show ?thesis using assms(2)
    by (auto simp add: deliver_def callback_def dropInColumn_def Let_def askMove_settled
        landed_settled split: option.splits if_splits)
qed

lemma run_settled:
  assumes "settled st" and "run st inputs = Some st'"
  shows "settled st'"
  using assms
proof (induction inputs arbitrary: st)
  case Nil
  then show ?case by simp
next
  case (Cons input inputs)
  from Cons.prems(2) obtain s where s: "deliver st input = Some s" "run s inputs = Some st'"
    by (auto split: option.splits)
  from Cons.IH[OF deliver_settled[OF Cons.prems(1) s(1)] s(2)] show ?case .
qed

lemma settled_start: "settled start"
  by (simp add: start_def askMove_settled)

lemma run_closed: "rl st = Closed \<Longrightarrow> run st inputs = Some st"
  by (induction inputs) (simp_all add: deliver_def)

lemma landed_outcome:
  assumes "playing st"
  shows "landed st r col =
     (let p = currentPlayer st; b' = setCell (board st) r col p; q = (if p = 1 then 2 else 1)
      in Some (if checkWin b' (int r) (int col) p = Some True
               then st\<lparr>board := b', playing := False, rl := Closed,
                       console := console st @ [Shown b', Wins p]\<rparr>
               else if isBoardFull b'
               then st\<lparr>board := b', playing := False, rl := Closed,
                       console := console st @ [Shown b', Draw]\<rparr>
               else st\<lparr>board := b', currentPlayer := q, rl := Asking,
                       console := console st @ [Shown b', Prompt q]\<rparr>))"
proof -
  obtain w where "checkWin (setCell (board st) r col (currentPlayer st)) (int r) (int col)
                    (currentPlayer st) = Some w"
    using checkWin_returns by blast
  then show ?thesis
    using assms by (cases w) (simp_all add: landed_def printBoard_def say_def askMove_def Let_def)
qed

subsection \<open>Lines that all name one column\<close>

lemma landed_reports: "landed st r col = Some st' \<Longrightarrow> fullReports st' = fullReports st"
  by (auto simp add: landed_def Let_def fullReports_def askMove_def say_def printBoard_def
      split: option.splits bool.splits if_splits)

lemma filled_idle: "filled col k (st\<lparr>rl := Idle\<rparr>) = filled col k st"
  by (simp add: filled_def)

lemma columnRun_step:
  assumes inv: "columnRun col m n s" and col: "col < COLS"
    and parse: "parseInt input = Some (int col + 1)"
  shows "\<exists>s'. deliver s input = Some s' \<and> columnRun col m (Suc n) s'"
proof (cases "playing s")
  case False
  then have "rl s = Closed" using inv by (simp add: columnRun_def settled_def)
  then have "deliver s input = Some s" by (simp add: deliver_def)
  moreover have "columnRun col m (Suc n) s"
    using inv False by (auto simp add: columnRun_def)
  ultimately show ?thesis by simp
next
  case True
  then have ask: "rl s = Asking" and k: "filled col (min n 6) s"
    and reports: "fullReports s = m + (n - 6)"
    using inv by (auto simp add: columnRun_def settled_def)
  let ?s0 = "s\<lparr>rl := Idle\<rparr>"
  have k0: "filled col (min n 6) ?s0" using k by (simp add: filled_idle)
  have del: "deliver s input = dropInColumn ?s0 col"
    using ask parse col by (simp add: deliver_def callback_def)
  show ?thesis
  proof (cases "n < 6")
    case True
    then have row: "findRow (board ?s0) col ROWS = Some (ROWS - 1 - n)"
      using filled_findRow[OF k0] by (simp add: ROWS_def)
    from filled_drop[OF k0 col] obtain s' where
      s': "dropInColumn ?s0 col = Some s'" "filled col (Suc n) s'"
      using True by (auto simp add: ROWS_def min_def)
    have land: "landed ?s0 (ROWS - 1 - n) col = Some s'"
      using s'(1) row by (simp add: dropInColumn_def)
    have "settled s'" using land by (rule landed_settled)
    moreover have "fullReports s' = m"
      using landed_reports[OF land] reports True by (simp add: fullReports_def)
    ultimately have "columnRun col m (Suc n) s'"
      using s'(2) True by (auto simp add: columnRun_def)
    then show ?thesis using del s'(1) by simp
  next
    case False
    then have "min n 6 = 6" by simp
    then have full: "filled col 6 ?s0" using k0 by simp
    then have "findRow (board ?s0) col ROWS = None"
      using filled_findRow[OF full] by (simp add: ROWS_def)
    then have res: "deliver s input = Some (askMove (say ColumnFull ?s0))"
      using del by (simp add: dropInColumn_def)
    have "columnRun col m (Suc n) (askMove (say ColumnFull ?s0))"
      using full False reports \<open>playing s\<close>
      by (auto simp add: columnRun_def settled_def askMove_def say_def filled_def fullReports_def)
    then show ?thesis using res by simp
  qed
qed

lemma columnRun_run:
  assumes "columnRun col m n0 s" and "col < COLS" and "parseInt input = Some (int col + 1)"
  shows "\<exists>s'. run s (replicate n input) = Some s' \<and> columnRun col m (n0 + n) s'"
  using assms(1)
proof (induction n arbitrary: s n0)
  case 0
  then show ?case by simp
next
  case (Suc n)
  from columnRun_step[OF Suc.prems assms(2,3)] obtain t where
    t: "deliver s input = Some t" "columnRun col m (Suc n0) t" by blast
  from Suc.IH[OF t(2)] show ?case using t(1) by simp
qed

subsection \<open>Evaluation on examples\<close>

lemmas parse_defs = parseInt_def parsePrefix_def parseDigits_def digitsValue_def isDigit_def
  digitValue_def isWhiteSpace_def line_def

lemmas win_defs = checkWin_def directions_def countDirection_def countLoop.simps ROWS_def COLS_def

lemma findRow_numeral:
  "findRow b col (numeral k) =
     (if b ! pred_numeral k ! col = 0 then Some (pred_numeral k)
      else findRow b col (pred_numeral k))"
  by (simp add: numeral_eq_Suc)

lemma start_eq:
  "start = \<lparr>board = emptyBoard, currentPlayer = 1, playing = True, rl = Asking,
             console = [Shown emptyBoard, Prompt 1]\<rparr>"
  by (simp add: start_def initial_def askMove_def printBoard_def say_def emptyBoard_def
      ROWS_def COLS_def numeral_eq_Suc)

lemmas run_defs = deliver_def callback_def dropInColumn_def landed_def askMove_def say_def
  printBoard_def setCell_def isBoardFull_def Let_def findRow_numeral

lemma replicate_numeral_Cons: "replicate (numeral k) x = x # replicate (pred_numeral k) x"
  by (simp add: numeral_eq_Suc)

section \<open>The claims\<close>

text \<open>
  C1. Whatever the board, a drop in a column \<open>col\<close> below 7 that has an empty cell lands:
  the scan stops at a row \<open>r\<close>, the body of the loop runs with the coordinates \<open>(r, col)\<close>
  (they are what \<open>checkWin\<close> receives) and returns. The cell \<open>(r, col)\<close> was empty, every
  row below \<open>r\<close> in the column was not, and \<open>r\<close> is the greatest row index with these two
  properties; it is also the greatest row index of an empty cell of the column. Afterwards
  the cell holds the current player and every other cell is as before.
\<close>

theorem drop_lands_on_lowest_empty:
  assumes "wf_board (board st)" and "col < COLS" and "\<exists>r<ROWS. board st ! r ! col = 0"
  shows "\<exists>r st'. r < ROWS
           \<and> dropInColumn st col = landed st r col \<and> landed st r col = Some st'
           \<and> board st ! r ! col = 0
           \<and> (\<forall>q. r < q \<and> q < ROWS \<longrightarrow> board st ! q ! col \<noteq> 0)
           \<and> (\<forall>r'<ROWS. board st ! r' ! col = 0
                  \<and> (\<forall>q. r' < q \<and> q < ROWS \<longrightarrow> board st ! q ! col \<noteq> 0) \<longrightarrow> r' \<le> r)
           \<and> (\<forall>r'<ROWS. board st ! r' ! col = 0 \<longrightarrow> r' \<le> r)
           \<and> board st' = setCell (board st) r col (currentPlayer st)
           \<and> board st' ! r ! col = currentPlayer st
           \<and> (\<forall>r'<ROWS. \<forall>c'<COLS. (r', c') \<noteq> (r, col) \<longrightarrow> board st' ! r' ! c' = board st ! r' ! c')"
proof -
  from assms(3) obtain r where r: "findRow (board st) col ROWS = Some r"
    using findRow_None[of "board st" col ROWS] by (cases "findRow (board st) col ROWS") auto
  then have row: "r < ROWS" "board st ! r ! col = 0"
    and below: "\<forall>q. r < q \<and> q < ROWS \<longrightarrow> board st ! q ! col \<noteq> 0"
    by (simp_all add: findRow_Some)
  from landed_returns[of st r col] obtain st' where
    st': "landed st r col = Some st'" "board st' = setCell (board st) r col (currentPlayer st)"
    by blast
  have greatest: "r' \<le> r" if "r' < ROWS" "board st ! r' ! col = 0" for r'
    using that below by (meson not_le_imp_less)
  have cells: "board st' ! r' ! c' = (if r' = r \<and> c' = col then currentPlayer st else board st ! r' ! c')"
    if "r' < ROWS" "c' < COLS" for r' c'
    using that assms(1,2) row(1) st'(2) by (simp add: setCell_nth)
  have "dropInColumn st col = landed st r col"
    using r by (simp add: dropInColumn_def)
  moreover have "board st' ! r ! col = currentPlayer st"
    using cells[OF row(1) assms(2)] by simp
  moreover have "\<forall>r'<ROWS. \<forall>c'<COLS. (r', c') \<noteq> (r, col) \<longrightarrow> board st' ! r' ! c' = board st ! r' ! c'"
    using cells by auto
  ultimately show ?thesis
    using row below st' greatest by blast
qed

theorem drop_lands_on_lowest_empty_witness:
  "wf_board (board fullColumnGame) \<and> 3 < COLS \<and> (\<exists>r<ROWS. board fullColumnGame ! r ! 3 = 0)
   \<and> (\<exists>r st'. r < ROWS \<and> dropInColumn fullColumnGame 3 = landed fullColumnGame r 3
        \<and> landed fullColumnGame r 3 = Some st'
        \<and> board st' = setCell (board fullColumnGame) r 3 (currentPlayer fullColumnGame)
        \<and> (\<forall>r'<ROWS. board fullColumnGame ! r' ! 3 = 0 \<longrightarrow> r' \<le> r))"
proof -
  have w: "wf_board (board fullColumnGame)"
    by (simp add: wf_board_def fullColumnGame_def ROWS_def COLS_def)
  have c: "3 < COLS" by (simp add: COLS_def)
  have "5 < ROWS \<and> board fullColumnGame ! 5 ! 3 = 0"
    by (simp add: fullColumnGame_def ROWS_def)
  then have e: "\<exists>r<ROWS. board fullColumnGame ! r ! 3 = 0" by blast
  from drop_lands_on_lowest_empty[OF w c e] show ?thesis
    using w c e by blast
qed

text \<open>
  C2. When the cell \<open>(row, col)\<close> holds \<open>player\<close>, \<open>checkWin\<close> returns, and returns true
  exactly when, for one of the four directions (0,1), (1,0), (1,1), (1,-1), four contiguous
  cells of the line through \<open>(row, col)\<close> hold \<open>player\<close>, \<open>(row, col)\<close> among them. The
  result is computed as the claim says: it is true exactly when, for one direction, 1 plus
  the count in the direction plus the count in the opposite direction is at least 4, where
  each count is returned by \<open>countDirection\<close> and is the length of the run of cells holding
  \<open>player\<close> that ends at the edge of the grid or at the first other cell.
\<close>

theorem checkWin_four_in_line:
  assumes "holds b player row col"
  shows "checkWin b row col player
           = Some (fourInLine b player row col 0 1 \<or> fourInLine b player row col 1 0
                   \<or> fourInLine b player row col 1 1 \<or> fourInLine b player row col 1 (- 1))
         \<and> (\<exists>h h' v v' d d' a a'.
               countDirection b row col 0 1 player = Some h
               \<and> isRun b player row col 0 1 h
               \<and> countDirection b row col 0 (- 1) player = Some h'
               \<and> isRun b player row col 0 (- 1) h'
               \<and> countDirection b row col 1 0 player = Some v
               \<and> isRun b player row col 1 0 v
               \<and> countDirection b row col (- 1) 0 player = Some v'
               \<and> isRun b player row col (- 1) 0 v'
               \<and> countDirection b row col 1 1 player = Some d
               \<and> isRun b player row col 1 1 d
               \<and> countDirection b row col (- 1) (- 1) player = Some d'
               \<and> isRun b player row col (- 1) (- 1) d'
               \<and> countDirection b row col 1 (- 1) player = Some a
               \<and> isRun b player row col 1 (- 1) a
               \<and> countDirection b row col (- 1) 1 player = Some a'
               \<and> isRun b player row col (- 1) 1 a'
               \<and> checkWin b row col player
                   = Some (4 \<le> 1 + h + h' \<or> 4 \<le> 1 + v + v' \<or> 4 \<le> 1 + d + d'
                           \<or> 4 \<le> 1 + a + a'))"
proof -
  have line: "checkWin b row col player
           = Some (fourInLine b player row col 0 1 \<or> fourInLine b player row col 1 0
                   \<or> fourInLine b player row col 1 1 \<or> fourInLine b player row col 1 (- 1))"
    using checkWin_line[OF assms] by (simp add: directions_def)
  from direction_counts[of 0 1 b row col player] obtain h h' where
    h: "countDirection b row col 0 1 player = Some h" "isRun b player row col 0 1 h"
       "countDirection b row col 0 (- 1) player = Some h'" "isRun b player row col 0 (- 1) h'"
    by (auto simp add: directions_def)
  from direction_counts[of 1 0 b row col player] obtain v v' where
    v: "countDirection b row col 1 0 player = Some v" "isRun b player row col 1 0 v"
       "countDirection b row col (- 1) 0 player = Some v'" "isRun b player row col (- 1) 0 v'"
    by (auto simp add: directions_def)
  from direction_counts[of 1 1 b row col player] obtain d d' where
    d: "countDirection b row col 1 1 player = Some d" "isRun b player row col 1 1 d"
       "countDirection b row col (- 1) (- 1) player = Some d'"
       "isRun b player row col (- 1) (- 1) d'"
    by (auto simp add: directions_def)
  from direction_counts[of 1 "- 1" b row col player] obtain a a' where
    a: "countDirection b row col 1 (- 1) player = Some a" "isRun b player row col 1 (- 1) a"
       "countDirection b row col (- 1) 1 player = Some a'" "isRun b player row col (- 1) 1 a'"
    by (auto simp add: directions_def)
  have "checkWin b row col player
          = Some (4 \<le> 1 + h + h' \<or> 4 \<le> 1 + v + v' \<or> 4 \<le> 1 + d + d' \<or> 4 \<le> 1 + a + a')"
    using checkWin_counts[of b row col player] h(1,3) v(1,3) d(1,3) a(1,3)
    by (simp add: directions_def)
  with line h v d a show ?thesis by blast
qed

theorem checkWin_four_in_line_witness:
  "holds rowBoard 1 5 3 \<and> checkWin rowBoard 5 3 1 = Some True
   \<and> (fourInLine rowBoard 1 5 3 0 1 \<or> fourInLine rowBoard 1 5 3 1 0
       \<or> fourInLine rowBoard 1 5 3 1 1 \<or> fourInLine rowBoard 1 5 3 1 (- 1))
   \<and> holds colBoard 1 2 3 \<and> checkWin colBoard 2 3 1 = Some True
   \<and> (fourInLine colBoard 1 2 3 0 1 \<or> fourInLine colBoard 1 2 3 1 0
       \<or> fourInLine colBoard 1 2 3 1 1 \<or> fourInLine colBoard 1 2 3 1 (- 1))
   \<and> holds diagBoard 1 2 0 \<and> checkWin diagBoard 2 0 1 = Some True
   \<and> (fourInLine diagBoard 1 2 0 0 1 \<or> fourInLine diagBoard 1 2 0 1 0
       \<or> fourInLine diagBoard 1 2 0 1 1 \<or> fourInLine diagBoard 1 2 0 1 (- 1))
   \<and> holds antiBoard 1 2 6 \<and> checkWin antiBoard 2 6 1 = Some True
   \<and> (fourInLine antiBoard 1 2 6 0 1 \<or> fourInLine antiBoard 1 2 6 1 0
       \<or> fourInLine antiBoard 1 2 6 1 1 \<or> fourInLine antiBoard 1 2 6 1 (- 1))
   \<and> holds rowBoard 2 4 2 \<and> checkWin rowBoard 4 2 2 = Some False
   \<and> \<not> (fourInLine rowBoard 2 4 2 0 1 \<or> fourInLine rowBoard 2 4 2 1 0
       \<or> fourInLine rowBoard 2 4 2 1 1 \<or> fourInLine rowBoard 2 4 2 1 (- 1))"
proof -
  have h: "holds rowBoard 1 5 3" "holds colBoard 1 2 3" "holds diagBoard 1 2 0"
      "holds antiBoard 1 2 6" "holds rowBoard 2 4 2"
    by (simp_all add: holds_def inGrid_def rowBoard_def colBoard_def diagBoard_def antiBoard_def
        ROWS_def COLS_def)
  have w: "checkWin rowBoard 5 3 1 = Some True" "checkWin colBoard 2 3 1 = Some True"
      "checkWin diagBoard 2 0 1 = Some True" "checkWin antiBoard 2 6 1 = Some True"
      "checkWin rowBoard 4 2 2 = Some False"
    by (simp_all add: rowBoard_def colBoard_def diagBoard_def antiBoard_def win_defs)
  note t = checkWin_four_in_line[THEN conjunct1]
  show ?thesis
    using h w t[OF h(1)] t[OF h(2)] t[OF h(3)] t[OF h(4)] t[OF h(5)] by simp
qed

text \<open>
  C3, as amended. From a state in which a question waits, the game is on and column \<open>col\<close>
  is empty, let \<open>n\<close> lines that all name the column be read. The column then holds \<open>k\<close>
  pieces, at most 6, at its bottom. If the game is still on, \<open>k\<close> is the smaller of \<open>n\<close> and
  6 and the full-column message was written \<open>n - 6\<close> times: the first six lines each dropped
  a piece, the seventh and every later line was answered with the message, and no message
  came before the sixth piece. If the game is over, one of the drops ended it: the
  interface is closed and no full-column message was written.
\<close>

theorem column_fills_while_game_is_on:
  assumes "rl st = Asking" and "playing st" and "wf_board (board st)" and "col < COLS"
    and "currentPlayer st \<noteq> 0" and "\<forall>r<ROWS. board st ! r ! col = 0"
    and "parseInt input = Some (int col + 1)"
  shows "\<exists>s k. run st (replicate n input) = Some s \<and> k \<le> 6
           \<and> (\<forall>r<ROWS. board s ! r ! col = 0 \<longleftrightarrow> r < 6 - k)
           \<and> (playing s \<longrightarrow> k = min n 6 \<and> fullReports s = fullReports st + (n - 6))
           \<and> (\<not> playing s \<longrightarrow> 1 \<le> k \<and> k \<le> n \<and> rl s = Closed
                  \<and> fullReports s = fullReports st)"
proof -
  have "filled col 0 st" using assms(3,5,6) by (simp add: filled_def)
  then have "columnRun col (fullReports st) 0 st"
    using assms(1,2) by (auto simp add: columnRun_def settled_def)
  from columnRun_run[OF this assms(4,7), of n] obtain s where
    s: "run st (replicate n input) = Some s" "columnRun col (fullReports st) n s"
    by auto
  from s(2) obtain k where k: "filled col k s" "settled s"
    "if playing s then k = min n 6 \<and> fullReports s = fullReports st + (n - 6)
     else 1 \<le> k \<and> k \<le> min n 6 \<and> fullReports s = fullReports st"
    by (auto simp add: columnRun_def)
  have "k \<le> 6" using k(3) by (auto split: if_splits)
  moreover have "\<forall>r<ROWS. board s ! r ! col = 0 \<longleftrightarrow> r < 6 - k"
    using k(1) by (simp add: filled_def ROWS_def)
  moreover have "\<not> playing s \<longrightarrow> rl s = Closed"
    using k(2) by (simp add: settled_def)
  ultimately show ?thesis
    using s(1) k(3) by (intro exI[of _ s] exI[of _ k]) (auto split: if_splits)
qed

theorem column_fills_while_game_is_on_witness:
  "rl start = Asking \<and> playing start \<and> wf_board (board start) \<and> 2 < COLS
   \<and> currentPlayer start \<noteq> 0 \<and> column (board start) 2 = [0, 0, 0, 0, 0, 0]
   \<and> parseInt (line ''3'') = Some (int 2 + 1) \<and> fullReports start = 0
   \<and> (\<exists>s. run start (replicate 7 (line ''3'')) = Some s \<and> playing s
          \<and> column (board s) 2 = [2, 1, 2, 1, 2, 1] \<and> fullReports s = 1)
   \<and> (\<exists>s. run start (replicate 6 (line ''3'')) = Some s \<and> playing s
          \<and> column (board s) 2 = [2, 1, 2, 1, 2, 1] \<and> fullReports s = 0)"
proof -
  have a: "rl start = Asking" "playing start" "currentPlayer start \<noteq> 0"
    by (simp_all add: start_eq)
  have w: "wf_board (board start)" using sound_start by (simp add: sound_def)
  have c: "2 < COLS" by (simp add: COLS_def)
  have m: "column (board start) 2 = [0, 0, 0, 0, 0, 0]"
    by (simp add: start_eq emptyBoard_def column_def)
  have e: "\<forall>r<ROWS. board start ! r ! 2 = 0"
    by (simp add: start_def initial_def askMove_def printBoard_def say_def COLS_def)
  have p: "parseInt (line ''3'') = Some (int 2 + 1)" by (simp add: parse_defs)
  have f: "fullReports start = 0" by (simp add: start_eq fullReports_def)
  have r7: "\<exists>s. run start (replicate 7 (line ''3'')) = Some s \<and> playing s
          \<and> column (board s) 2 = [2, 1, 2, 1, 2, 1]"
    by (simp add: start_eq emptyBoard_def column_def run_defs parse_defs win_defs replicate_numeral_Cons)
  have r6: "\<exists>s. run start (replicate 6 (line ''3'')) = Some s \<and> playing s
          \<and> column (board s) 2 = [2, 1, 2, 1, 2, 1]"
    by (simp add: start_eq emptyBoard_def column_def run_defs parse_defs win_defs replicate_numeral_Cons)
  have "\<exists>s. run start (replicate 7 (line ''3'')) = Some s \<and> playing s
          \<and> column (board s) 2 = [2, 1, 2, 1, 2, 1] \<and> fullReports s = 1"
    using r7 f column_fills_while_game_is_on[OF a(1,2) w c a(3) e p, of 7] by auto
  moreover have "\<exists>s. run start (replicate 6 (line ''3'')) = Some s \<and> playing s
          \<and> column (board s) 2 = [2, 1, 2, 1, 2, 1] \<and> fullReports s = 0"
    using r6 f column_fills_while_game_is_on[OF a(1,2) w c a(3) e p, of 6] by auto
  ultimately show ?thesis
    by (intro conjI a w c m p f)
qed

text \<open>
  C3 as it is written fails. After the lines 1, 1, 2, 2, 3, 3 from the start the fourth
  column is empty and player 1 has three pieces in the bottom row. Of seven more lines
  that all name the fourth column the first drops a piece and wins; the game is over, no
  other piece is dropped and the full-column message is never written.
\<close>

theorem column_never_full_after_win_counterexample:
  "map_option board (run start (map line [''1'', ''1'', ''2'', ''2'', ''3'', ''3'']))
     = Some nearWinBoard
   \<and> column nearWinBoard 3 = [0, 0, 0, 0, 0, 0]
   \<and> map_option board
        (run start (map line [''1'', ''1'', ''2'', ''2'', ''3'', ''3''] @ replicate 7 (line ''4'')))
     = Some rowBoard
   \<and> column rowBoard 3 = [0, 0, 0, 0, 0, 1]
   \<and> map_option fullReports
        (run start (map line [''1'', ''1'', ''2'', ''2'', ''3'', ''3''] @ replicate 7 (line ''4'')))
     = Some 0
   \<and> map_option playing
        (run start (map line [''1'', ''1'', ''2'', ''2'', ''3'', ''3''] @ replicate 7 (line ''4'')))
     = Some False"
  by (simp add: start_eq emptyBoard_def nearWinBoard_def rowBoard_def column_def fullReports_def
      run_defs parse_defs win_defs replicate_numeral_Cons)



text \<open>
  C5. While a question waits and the game is on, a line with a column number in range whose
  column has no empty cell changes nothing but the console: "Columna llena, elige otra."
  and the question for the same player are added. The board and the current player are
  as before.
\<close>

theorem full_column_reprompts:
  assumes "rl st = Asking" and "playing st"
    and "parseInt input = Some n" and "0 \<le> n - 1" and "n - 1 < int COLS"
    and "\<forall>r<ROWS. board st ! r ! nat (n - 1) \<noteq> 0"
  shows "deliver st input =
           Some (st\<lparr>console := console st @ [ColumnFull, Prompt (currentPlayer st)]\<rparr>)"
proof -
  have "findRow (board st) (nat (n - 1)) ROWS = None"
    using assms(6) by (simp add: findRow_None)
  then show ?thesis
    using assms(1-5) by (simp add: deliver_def callback_def dropInColumn_def askMove_def say_def Let_def)
qed

theorem full_column_reprompts_witness:
  "rl fullColumnGame = Asking \<and> playing fullColumnGame \<and> parseInt (line ''3'') = Some 3
   \<and> map (\<lambda>row. row ! nat (3 - 1)) (board fullColumnGame) = [2, 1, 2, 1, 2, 1]
   \<and> deliver fullColumnGame (line ''3'')
       = Some (fullColumnGame\<lparr>console := [ColumnFull, Prompt 1]\<rparr>)"
proof -
  have s: "rl fullColumnGame = Asking" "playing fullColumnGame"
    by (simp_all add: fullColumnGame_def)
  have p: "parseInt (line ''3'') = Some 3"
    by (simp add: parse_defs)
  have r: "(0::int) \<le> 3 - 1" "(3::int) - 1 < int COLS"
    by (simp_all add: COLS_def)
  have m: "map (\<lambda>row. row ! nat (3 - 1)) (board fullColumnGame) = [2, 1, 2, 1, 2, 1]"
    by (simp add: fullColumnGame_def)
  have f: "\<forall>r<ROWS. board fullColumnGame ! r ! nat (3 - 1) \<noteq> 0"
    by (simp add: fullColumnGame_def ROWS_def less_Suc_eq numeral_eq_Suc)
  have "deliver fullColumnGame (line ''3'')
       = Some (fullColumnGame\<lparr>console := [ColumnFull, Prompt 1]\<rparr>)"
    using full_column_reprompts[OF s p r f] by (simp add: fullColumnGame_def)
  then show ?thesis
    by (intro conjI s p m)
qed

text \<open>
  C6. On a board of 6 rows of 7 cells, 42 cells in all, \<open>isBoardFull\<close> is true exactly when
  no cell is empty, and false as soon as one cell is empty.
\<close>

theorem isBoardFull_all_cells:
  assumes "wf_board b"
  shows "(isBoardFull b \<longleftrightarrow> (\<forall>r<ROWS. \<forall>c<COLS. b ! r ! c \<noteq> 0))
         \<and> ((\<exists>r<ROWS. \<exists>c<COLS. b ! r ! c = 0) \<longrightarrow> \<not> isBoardFull b)
         \<and> ROWS * COLS = 42"
  using isBoardFull_cells[OF assms] by (auto simp add: ROWS_def COLS_def)

theorem isBoardFull_all_cells_witness:
  "wf_board drawBoard \<and> isBoardFull drawBoard
   \<and> isBoardFull drawBoard = (\<forall>r<ROWS. \<forall>c<COLS. drawBoard ! r ! c \<noteq> 0)
   \<and> wf_board rowBoard \<and> \<not> isBoardFull rowBoard
   \<and> isBoardFull rowBoard = (\<forall>r<ROWS. \<forall>c<COLS. rowBoard ! r ! c \<noteq> 0)"
proof -
  have d: "wf_board drawBoard" and r: "wf_board rowBoard"
    by (simp_all add: wf_board_def drawBoard_def rowBoard_def ROWS_def COLS_def)
  have e: "isBoardFull drawBoard" "\<not> isBoardFull rowBoard"
    by (simp_all add: isBoardFull_def drawBoard_def rowBoard_def)
  note full = conjunct1[OF isBoardFull_all_cells[OF d]]
  note part = conjunct1[OF isBoardFull_all_cells[OF r]]
  show ?thesis
    by (intro conjI d r e full part)
qed

text \<open>
  C7. While a question waits and the game is on, a line that is a legal move (a column in
  range with an empty cell, the piece landing in row \<open>r\<close>) is evaluated in this order:
  if \<open>checkWin\<close> at the landing cell is true the player is announced as the winner and
  the game ends; else if \<open>isBoardFull\<close> a draw is announced and the game ends; else the
  other player is asked. And, whatever the line, the current player changes exactly when
  the line is a legal move after which \<open>checkWin\<close> is false and the board is not full.
\<close>

theorem turn_passes_after_open_move_only:
  assumes "rl st = Asking" and "playing st"
    and "currentPlayer st = 1 \<or> currentPlayer st = 2"
  shows "(\<forall>col r. col < COLS \<and> parseInt input = Some (int col + 1)
              \<and> findRow (board st) col ROWS = Some r \<longrightarrow>
            (let p = currentPlayer st; b' = setCell (board st) r col p;
                 q = (if p = 1 then 2 else 1)
             in deliver st input = Some
                 (if checkWin b' (int r) (int col) p = Some True
                  then st\<lparr>board := b', playing := False, rl := Closed,
                          console := console st @ [Shown b', Wins p]\<rparr>
                  else if isBoardFull b'
                  then st\<lparr>board := b', playing := False, rl := Closed,
                          console := console st @ [Shown b', Draw]\<rparr>
                  else st\<lparr>board := b', currentPlayer := q,
                          console := console st @ [Shown b', Prompt q]\<rparr>)))
         \<and> (\<exists>st'. deliver st input = Some st'
               \<and> (currentPlayer st' \<noteq> currentPlayer st \<longleftrightarrow>
                    (\<exists>col r. col < COLS \<and> parseInt input = Some (int col + 1)
                       \<and> findRow (board st) col ROWS = Some r
                       \<and> checkWin (setCell (board st) r col (currentPlayer st)) (int r) (int col)
                             (currentPlayer st) = Some False
                       \<and> \<not> isBoardFull (setCell (board st) r col (currentPlayer st)))))"
proof -
  let ?p = "currentPlayer st"
  let ?legal = "\<lambda>col r. col < COLS \<and> parseInt input = Some (int col + 1)
                  \<and> findRow (board st) col ROWS = Some r"
  let ?open = "\<lambda>col r. checkWin (setCell (board st) r col ?p) (int r) (int col) ?p = Some False
                  \<and> \<not> isBoardFull (setCell (board st) r col ?p)"
  let ?out = "\<lambda>col r.
     (let p = ?p; b' = setCell (board st) r col p; q = (if p = 1 then 2 else 1)
      in (if checkWin b' (int r) (int col) p = Some True
          then st\<lparr>board := b', playing := False, rl := Closed,
                  console := console st @ [Shown b', Wins p]\<rparr>
          else if isBoardFull b'
          then st\<lparr>board := b', playing := False, rl := Closed,
                  console := console st @ [Shown b', Draw]\<rparr>
          else st\<lparr>board := b', currentPlayer := q,
                  console := console st @ [Shown b', Prompt q]\<rparr>))"
  have move: "deliver st input = Some (?out col r)" if "?legal col r" for col r
  proof -
    have "deliver st input = landed (st\<lparr>rl := Idle\<rparr>) r col"
      using that assms(1) by (simp add: deliver_def callback_def dropInColumn_def)
    also have "\<dots> = Some (?out col r)"
      using assms(1,2) by (simp add: landed_outcome Let_def)
    finally show ?thesis .
  qed
  have turn: "currentPlayer (?out col r) \<noteq> ?p \<longleftrightarrow> ?open col r" for col r
  proof -
    obtain w where "checkWin (setCell (board st) r col ?p) (int r) (int col) ?p = Some w"
      using checkWin_returns by blast
    then show ?thesis
      using assms(3) by (cases w) (auto simp add: Let_def)
  qed
  have still: "\<exists>st'. deliver st input = Some st' \<and> currentPlayer st' = ?p"
    if "\<not> (\<exists>col r. ?legal col r)"
  proof (cases "parseInt input")
    case None
    then show ?thesis
      using assms(1) by (simp add: deliver_def callback_def askMove_def say_def)
  next
    case (Some n)
    show ?thesis
    proof (cases "n - 1 < 0 \<or> int COLS \<le> n - 1")
      case True
      then show ?thesis
        using assms(1) Some by (auto simp add: deliver_def callback_def askMove_def say_def Let_def)
    next
      case False
      then have "nat (n - 1) < COLS" and "n = int (nat (n - 1)) + 1" by auto
      then have "findRow (board st) (nat (n - 1)) ROWS = None"
        using that Some by (cases "findRow (board st) (nat (n - 1)) ROWS") auto
      then show ?thesis
        using assms(1) Some False
        by (auto simp add: deliver_def callback_def dropInColumn_def askMove_def say_def Let_def)
    qed
  qed
  have second: "\<exists>st'. deliver st input = Some st'
               \<and> (currentPlayer st' \<noteq> ?p \<longleftrightarrow> (\<exists>col r. ?legal col r \<and> ?open col r))"
  proof (cases "\<exists>col r. ?legal col r")
    case False
    with still show ?thesis by blast
  next
    case True
    then obtain col r where legal: "?legal col r" by blast
    have only: "col' = col \<and> r' = r" if "?legal col' r'" for col' r'
      using that legal by auto
    have "(\<exists>col' r'. ?legal col' r' \<and> ?open col' r') \<longleftrightarrow> ?open col r"
      using legal only by blast
    then show ?thesis
      using move[OF legal] turn[where col=col and r=r] by simp
  qed
  have first: "\<forall>col r. ?legal col r \<longrightarrow> deliver st input = Some (?out col r)"
    using move by blast
  from first second show ?thesis
    by (simp add: Let_def)
qed

theorem turn_passes_after_open_move_only_witness:
  "rl start = Asking \<and> playing start \<and> currentPlayer start = 1
   \<and> parseInt (line ''4'') = Some (int 3 + 1) \<and> findRow (board start) 3 ROWS = Some 5
   \<and> deliver start (line ''4'')
       = Some (start\<lparr>board := setCell (board start) 5 3 1, currentPlayer := 2,
                     console := console start @ [Shown (setCell (board start) 5 3 1), Prompt 2]\<rparr>)
   \<and> rl nearWinGame = Asking \<and> playing nearWinGame \<and> currentPlayer nearWinGame = 1
   \<and> findRow (board nearWinGame) 3 ROWS = Some 5
   \<and> deliver nearWinGame (line ''4'')
       = Some (nearWinGame\<lparr>board := rowBoard, playing := False, rl := Closed,
                     console := [Shown rowBoard, Wins 1]\<rparr>)"
proof -
  have s: "rl start = Asking" "playing start" "currentPlayer start = 1 \<or> currentPlayer start = 2"
    and s1: "currentPlayer start = 1"
    by (simp_all add: start_eq)
  have g: "rl nearWinGame = Asking" "playing nearWinGame"
      "currentPlayer nearWinGame = 1 \<or> currentPlayer nearWinGame = 2"
    and g1: "currentPlayer nearWinGame = 1" "board nearWinGame = nearWinBoard" "console nearWinGame = []"
    by (simp_all add: nearWinGame_def)
  have c: "3 < COLS" by (simp add: COLS_def)
  have p: "parseInt (line ''4'') = Some (int 3 + 1)"
    by (simp add: parse_defs)
  have rs: "findRow (board start) 3 ROWS = Some 5"
    by (simp add: start_eq emptyBoard_def ROWS_def findRow_numeral)
  have rg: "findRow (board nearWinGame) 3 ROWS = Some 5"
    by (simp add: nearWinGame_def nearWinBoard_def ROWS_def findRow_numeral)
  have ws: "checkWin (setCell (board start) 5 3 1) (int 5) (int 3) 1 = Some False"
    and fs: "\<not> isBoardFull (setCell (board start) 5 3 1)"
    by (simp_all add: start_eq emptyBoard_def setCell_def isBoardFull_def win_defs)
  have wg: "checkWin (setCell nearWinBoard 5 3 1) (int 5) (int 3) 1 = Some True"
    by (simp add: nearWinBoard_def setCell_def win_defs)
  from turn_passes_after_open_move_only[OF s, of "line ''4''"] c p rs
  have "let p = currentPlayer start; b' = setCell (board start) 5 3 p;
            q = (if p = 1 then 2 else 1)
        in deliver start (line ''4'') = Some
             (if checkWin b' (int 5) (int 3) p = Some True
              then start\<lparr>board := b', playing := False, rl := Closed,
                      console := console start @ [Shown b', Wins p]\<rparr>
              else if isBoardFull b'
              then start\<lparr>board := b', playing := False, rl := Closed,
                      console := console start @ [Shown b', Draw]\<rparr>
              else start\<lparr>board := b', currentPlayer := q,
                      console := console start @ [Shown b', Prompt q]\<rparr>)"
    by blast
  then have ds: "deliver start (line ''4'')
       = Some (start\<lparr>board := setCell (board start) 5 3 1, currentPlayer := 2,
                     console := console start @ [Shown (setCell (board start) 5 3 1), Prompt 2]\<rparr>)"
    using ws fs by (simp add: Let_def s1)
  from turn_passes_after_open_move_only[OF g, of "line ''4''"] c p rg
  have "let p = currentPlayer nearWinGame; b' = setCell (board nearWinGame) 5 3 p;
            q = (if p = 1 then 2 else 1)
        in deliver nearWinGame (line ''4'') = Some
             (if checkWin b' (int 5) (int 3) p = Some True
              then nearWinGame\<lparr>board := b', playing := False, rl := Closed,
                      console := console nearWinGame @ [Shown b', Wins p]\<rparr>
              else if isBoardFull b'
              then nearWinGame\<lparr>board := b', playing := False, rl := Closed,
                      console := console nearWinGame @ [Shown b', Draw]\<rparr>
              else nearWinGame\<lparr>board := b', currentPlayer := q,
                      console := console nearWinGame @ [Shown b', Prompt q]\<rparr>)"
    by blast
  moreover have "setCell nearWinBoard 5 3 1 = rowBoard"
    by (simp add: nearWinBoard_def rowBoard_def setCell_def)
  ultimately have dg: "deliver nearWinGame (line ''4'')
       = Some (nearWinGame\<lparr>board := rowBoard, playing := False, rl := Closed,
                     console := [Shown rowBoard, Wins 1]\<rparr>)"
    using wg by (simp add: Let_def g1)
  show ?thesis
    by (intro conjI s(1,2) s1 p rs ds g(1,2) g1(1) rg dg)
qed

text \<open>
  C8. In a state reached from the start where the game is over (\<open>playing\<close> is false) the
  interface is closed: a line changes nothing, and neither does any sequence of lines, so
  the board is never changed again. What \<open>askMove\<close> does once the game is over is to
  close the interface, and nothing else.
\<close>

theorem game_over_is_final:
  assumes "run start inputs = Some st" and "\<not> playing st"
  shows "rl st = Closed \<and> deliver st input = Some st \<and> run st later = Some st
         \<and> askMove st = st\<lparr>rl := Closed\<rparr> \<and> board (askMove st) = board st"
proof -
  have "settled st"
    using run_settled[OF settled_start assms(1)] .
  then have c: "rl st = Closed" using assms(2) by (simp add: settled_def)
  then show ?thesis
    using assms(2) by (simp add: run_closed deliver_def askMove_def)
qed

theorem game_over_is_final_witness:
  "\<exists>s. run start (map line [''1'', ''1'', ''2'', ''2'', ''3'', ''3'', ''4'']) = Some s
      \<and> \<not> playing s \<and> board s = rowBoard
      \<and> rl s = Closed \<and> deliver s (line ''5'') = Some s
      \<and> run s (map line [''5'', ''1'']) = Some s"
proof -
  have "\<exists>s. run start (map line [''1'', ''1'', ''2'', ''2'', ''3'', ''3'', ''4'']) = Some s
      \<and> \<not> playing s \<and> board s = rowBoard"
    by (simp add: start_eq emptyBoard_def rowBoard_def run_defs parse_defs win_defs)
  then obtain s where
    s: "run start (map line [''1'', ''1'', ''2'', ''2'', ''3'', ''3'', ''4'']) = Some s"
       "\<not> playing s" "board s = rowBoard"
    by blast
  from game_over_is_final[OF s(1,2)] show ?thesis
    using s by blast
qed

text \<open>
  C9. Gravity: the cell under a piece is never empty. It holds on the empty board of the
  start; a drop (lines 40 to 58) in a column below 7 keeps it, on every board of 6 rows of
  7 cells and for every current player other than 0; and it holds in every state the turn
  loop reaches from the start, whatever the input lines.
\<close>

theorem gravity_invariant:
  "gravity (board start)
   \<and> (wf_board (board st) \<and> gravity (board st) \<and> currentPlayer st \<noteq> 0 \<and> col < COLS \<longrightarrow>
        (\<exists>st'. dropInColumn st col = Some st' \<and> wf_board (board st')
            \<and> gravity (board st') \<and> currentPlayer st' \<noteq> 0))
   \<and> (\<exists>st. run start inputs = Some st \<and> gravity (board st))"
  using dropInColumn_sound[of st col] run_sound[OF sound_start, of inputs] sound_start
  by (auto simp add: sound_def)

theorem gravity_invariant_witness:
  "wf_board (board start) \<and> gravity (board start) \<and> currentPlayer start \<noteq> 0 \<and> 3 < COLS
   \<and> (\<exists>st'. dropInColumn start 3 = Some st' \<and> gravity (board st'))
   \<and> (\<exists>st. run start [line ''4'', line ''x'', line ''4''] = Some st \<and> gravity (board st))"
proof -
  have s: "wf_board (board start)" "gravity (board start)" "currentPlayer start \<noteq> 0"
    using sound_start by (simp_all add: sound_def)
  have c: "3 < COLS" by (simp add: COLS_def)
  from gravity_invariant[of start 3 "[line ''4'', line ''x'', line ''4'']"] s c
  show ?thesis by blast
qed

text \<open>
  C10. \<open>checkWin\<close> never reads the cell \<open>(row, col)\<close> itself: its result is the same
  whatever that cell holds. In particular, on a board whose bottom row starts with three
  pieces of player 1 and whose cell \<open>(5, 3)\<close> is empty, \<open>checkWin(5, 3, 1)\<close> is true.
\<close>

theorem checkWin_ignores_placed_cell:
  "checkWin (setCell b row col v) (int row) (int col) player
     = checkWin b (int row) (int col) player
   \<and> threeBoard ! 5 ! 3 \<noteq> 1 \<and> checkWin threeBoard 5 3 1 = Some True"
proof -
  have "threeBoard ! 5 ! 3 \<noteq> 1"
    by (simp add: threeBoard_def)
  moreover have "checkWin threeBoard 5 3 1 = Some True"
    by (simp add: threeBoard_def win_defs)
  ultimately show ?thesis
    by (simp add: checkWin_setCell)
qed

theorem checkWin_ignores_placed_cell_witness:
  "checkWin (setCell rowBoard 5 3 2) 5 3 1 = checkWin rowBoard 5 3 1
   \<and> setCell rowBoard 5 3 2 ! 5 ! 3 = 2 \<and> checkWin (setCell rowBoard 5 3 2) 5 3 1 = Some True"
proof -
  have "checkWin rowBoard 5 3 1 = Some True"
    by (simp add: rowBoard_def win_defs)
  moreover have "setCell rowBoard 5 3 2 ! 5 ! 3 = 2"
    by (simp add: rowBoard_def setCell_def)
  ultimately show ?thesis
    using checkWin_ignores_placed_cell[of rowBoard 5 3 2 1] by simp
qed

end
